theory Spec2Isabelle
  imports Complex_Main "HOL-Library.Word"
begin

unbundle bit_operations_syntax

section \<open>Data model\<close>

text \<open>
  A pixel is the tuple \<open>(r8, g8, b8)\<close> of Python integers that \<open>add_pixel\<close> appends.
  The class \<open>VGAFrameCapture\<close> holds \<open>width\<close>, \<open>height\<close> and the list \<open>pixels\<close>.
\<close>

type_synonym pixel = "int \<times> int \<times> int"

record VGAFrameCapture =
  width :: int
  height :: int
  pixels :: "pixel list"

definition init :: "int \<Rightarrow> int \<Rightarrow> VGAFrameCapture" where
  "init w h = \<lparr>width = w, height = h, pixels = []\<rparr>"

text \<open>
  The device under test is a black box. Its two output ports \<open>uo_out\<close> and \<open>uio_out\<close>
  are 8 bits wide; a tick stream gives their values after each rising clock edge, so
  \<open>s t\<close> is what the test bench reads once \<open>t\<close> edges have gone by.
\<close>

record dut_sample =
  uo_out :: "8 word"
  uio_out :: "8 word"

type_synonym tick_stream = "nat \<Rightarrow> dut_sample"

section \<open>Signal sampler\<close>

text \<open>
  \<open>hsync = int(dut.uo_out.value[0])\<close>, \<open>vsync = int(dut.uo_out.value[1])\<close>,
  \<open>r = (int(dut.uo_out.value) >> 2) & 0x7\<close>, \<open>g = (int(dut.uo_out.value) >> 5) & 0x7\<close>,
  \<open>b = int(dut.uio_out.value) & 0x3\<close>.
\<close>

definition hsync :: "dut_sample \<Rightarrow> int" where
  "hsync smp = (if bit (uo_out smp) 0 then 1 else 0)"

definition vsync :: "dut_sample \<Rightarrow> int" where
  "vsync smp = (if bit (uo_out smp) 1 then 1 else 0)"

definition red :: "dut_sample \<Rightarrow> int" where
  "red smp = drop_bit 2 (uint (uo_out smp)) AND 7"

definition green :: "dut_sample \<Rightarrow> int" where
  "green smp = drop_bit 5 (uint (uo_out smp)) AND 7"

definition blue :: "dut_sample \<Rightarrow> int" where
  "blue smp = uint (uio_out smp) AND 3"

text \<open>
  \<open>add_pixel\<close>: Python's \<open>//\<close> is floor division on unbounded integers, as \<open>div\<close> on
  \<open>int\<close> is.
\<close>

definition add_pixel :: "VGAFrameCapture \<Rightarrow> int \<Rightarrow> int \<Rightarrow> int \<Rightarrow> VGAFrameCapture" where
  "add_pixel self r g b =
     (let r8 = (r * 255) div 7;
          g8 = (g * 255) div 7;
          b8 = (b * 255) div 3
      in self\<lparr>pixels := pixels self @ [(r8, g8, b8)]\<rparr>)"

text \<open>
  The expansion in the words of the specification: a channel of native width \<open>N\<close> goes to
  \<open>floor (v * 255 / (2^N - 1))\<close>, the division being the one of the real numbers.
\<close>

definition expand_spec :: "nat \<Rightarrow> int \<Rightarrow> int" where
  "expand_spec N v = \<lfloor>(of_int v * 255 :: real) / (2 ^ N - 1)\<rfloor>"

section \<open>Frame synchronizer and accumulator\<close>

text \<open>
  The two wait loops of \<open>capture_frame\<close> share the counter \<open>timeout\<close>:
  \<open>while dut.uo_out.value[1] == lvl and timeout < 100000: await RisingEdge; timeout += 1\<close>.
  The state is the number of edges gone by and the counter.
\<close>

function wait_while :: "int \<Rightarrow> tick_stream \<Rightarrow> nat \<Rightarrow> nat \<Rightarrow> nat \<times> nat" where
  "wait_while lvl s t timeout =
     (if vsync (s t) = lvl \<and> timeout < 100000
      then wait_while lvl s (t + 1) (timeout + 1)
      else (t, timeout))"
  by pat_completeness auto
termination
  by (relation "measure (\<lambda>(lvl, s, t, timeout). 100000 - timeout)") auto

declare wait_while.simps [simp del]

definition wait_for_frame_sync :: "tick_stream \<Rightarrow> nat \<Rightarrow> nat \<times> nat" where
  "wait_for_frame_sync s t =
     (let (t1, timeout1) = wait_while 1 s t 0
      in wait_while 0 s t1 timeout1)"

text \<open>
  The capture loop \<open>for _ in range(n)\<close> (\<open>n = 500000\<close> in \<open>capture_frame\<close>): wait for
  an edge, sample, append when both sync lines read 1, leave once the frame is full.
\<close>

definition sample_pixel :: "VGAFrameCapture \<Rightarrow> dut_sample \<Rightarrow> VGAFrameCapture" where
  "sample_pixel fc smp =
     (if hsync smp = 1 \<and> vsync smp = 1
      then add_pixel fc (red smp) (green smp) (blue smp)
      else fc)"

fun capture_loop :: "nat \<Rightarrow> tick_stream \<Rightarrow> nat \<Rightarrow> VGAFrameCapture \<Rightarrow> nat \<times> VGAFrameCapture" where
  "capture_loop 0 s t fc = (t, fc)"
| "capture_loop (Suc n) s t fc =
     (let t' = t + 1;
          fc' = sample_pixel fc (s t')
      in if length (pixels fc')  \<ge> 640 * 480 then (t', fc')
         else capture_loop n s t' fc')"

text \<open>\<open>while len(frame_capture.pixels) < 640 * 480: frame_capture.pixels.append((0, 0, 0))\<close>\<close>

function pad_black :: "pixel list \<Rightarrow> pixel list" where
  "pad_black px =
     (if length px < 640 * 480 then pad_black (px @ [(0, 0, 0)]) else px)"
  by pat_completeness auto
termination
  by (relation "measure (\<lambda>px. 640 * 480 - length px)") auto

declare pad_black.simps [simp del]

text \<open>
  \<open>capture_frame\<close>, from the edge count \<open>t\<close> at which it is called: 100 clock cycles
  after the mode and scene are driven, the synchronizer, the capture loop, the padding
  and the truncation \<open>pixels[:640 * 480]\<close>. The pieces are named so that the state between
  them can be spoken of.
\<close>

definition accumulate :: "tick_stream \<Rightarrow> nat \<Rightarrow> VGAFrameCapture \<Rightarrow> nat \<times> VGAFrameCapture" where
  "accumulate s t frame_capture =
     (let (t1, timeout) = wait_for_frame_sync s (t + 100)
      in capture_loop 500000 s t1 frame_capture)"

definition capture_frame :: "tick_stream \<Rightarrow> nat \<Rightarrow> VGAFrameCapture \<Rightarrow> nat \<times> VGAFrameCapture" where
  "capture_frame s t frame_capture =
     (let (t2, fc) = accumulate s t frame_capture;
          fc1 = fc\<lparr>pixels := pad_black (pixels fc)\<rparr>
      in (t2, fc1\<lparr>pixels := take (640 * 480) (pixels fc1)\<rparr>))"

section \<open>Raster writer\<close>

text \<open>
  The operating system is outside the repository. Its part is modelled as far as
  \<open>save_ppm\<close> needs it: POSIX path strings, a set of directories and a map from the
  paths of regular files to their contents. Paths are compared as written, which tells
  files apart only where each has one spelling (see \<open>normal_path\<close> below); permissions,
  links, limits on the length of names and device errors are not modelled. An exception is a value: \<open>Inl\<close> carries the
  error together with the file system as the exception leaves it.
\<close>

datatype error =
    FileNotFoundError
  | FileExistsError
  | NotADirectoryError
  | IsADirectoryError
  | ZeroDivisionError

record filesystem =
  dirs :: "string set"
  files :: "string \<rightharpoonup> string"

definition sep :: char where
  "sep = CHR ''/''"

definition nl :: char where
  "nl = CHR 0x0A"

text \<open>
  \<open>posixpath.split\<close>: \<open>i = p.rfind('/') + 1; head, tail = p[:i], p[i:]\<close>; the head loses
  its trailing slashes unless it consists of slashes only. \<open>dirname\<close> is the head.
\<close>

definition rstrip_sep :: "string \<Rightarrow> string" where
  "rstrip_sep p = rev (dropWhile (\<lambda>c. c = sep) (rev p))"

definition split_path :: "string \<Rightarrow> string \<times> string" where
  "split_path p =
     (let tail = rev (takeWhile (\<lambda>c. c \<noteq> sep) (rev p));
          head = rev (dropWhile (\<lambda>c. c \<noteq> sep) (rev p))
      in if head \<noteq> [] \<and> head \<noteq> replicate (length head) sep
         then (rstrip_sep head, tail) else (head, tail))"

definition dirname :: "string \<Rightarrow> string" where
  "dirname p = fst (split_path p)"

text \<open>
  The directories on the way to \<open>name\<close>, outermost first and \<open>name\<close> itself last: the
  prefixes of \<open>name\<close> that end where a run of slashes begins.
\<close>

definition parents :: "string \<Rightarrow> string list" where
  "parents name =
     map (\<lambda>i. take i name)
       (filter (\<lambda>i. name ! i = sep \<and> name ! (i - 1) \<noteq> sep) [1..<length name]) @ [name]"

text \<open>
  \<open>os.makedirs(name, exist_ok=True)\<close>. The empty name is refused by \<open>mkdir\<close> with
  \<open>FileNotFoundError\<close>, and \<open>exist_ok\<close> does not help since the empty path is no
  directory. A regular file on the way is an error as well. Otherwise every directory on
  the way exists afterwards.
\<close>

definition makedirs :: "filesystem \<Rightarrow> string \<Rightarrow> error \<times> filesystem + filesystem" where
  "makedirs fs name =
     (if name = [] then Inl (FileNotFoundError, fs)
      else case find (\<lambda>p. files fs p \<noteq> None) (parents name) of
             Some p \<Rightarrow> Inl (if p = name then FileExistsError else NotADirectoryError, fs)
           | None \<Rightarrow> Inr (fs\<lparr>dirs := dirs fs \<union> set (parents name)\<rparr>))"

text \<open>
  \<open>open(filename, 'w')\<close>: the file is created or truncated. The directory of a path
  without a directory part is the current one, and a head of slashes only is the root;
  both exist.
\<close>

definition open_w :: "filesystem \<Rightarrow> string \<Rightarrow> error \<times> filesystem + filesystem" where
  "open_w fs filename =
     (let d = dirname filename
      in if filename = [] then Inl (FileNotFoundError, fs)
         else if filename \<in> dirs fs \<or> last filename = sep then Inl (IsADirectoryError, fs)
         else if d \<noteq> [] \<and> files fs d \<noteq> None then Inl (NotADirectoryError, fs)
         else if d \<noteq> [] \<and> d \<noteq> replicate (length d) sep \<and> d \<notin> dirs fs
              then Inl (FileNotFoundError, fs)
         else Inr (fs\<lparr>files := (files fs)(filename \<mapsto> [])\<rparr>))"

text \<open>
  Comparing paths as written is comparing files only where every file has one spelling.
  That is so for relative paths in normal form: components separated by single slashes,
  none of them empty, \<open>.\<close> or \<open>..\<close>, and without the NUL character, which Python
  refuses in a path. A file system state is well formed when its directories and regular
  files are named by such paths, every directory on the way to an entry is there, and
  nothing is both a directory and a regular file: the tree below the current directory.
  What is said about a call that succeeds is said for such paths and states.
\<close>

fun split_sep :: "string \<Rightarrow> string \<Rightarrow> string list" where
  "split_sep acc [] = [rev acc]"
| "split_sep acc (c # cs) =
     (if c = sep then rev acc # split_sep [] cs else split_sep (c # acc) cs)"

definition components :: "string \<Rightarrow> string list" where
  "components p = split_sep [] p"

definition normal_component :: "string \<Rightarrow> bool" where
  "normal_component c = (c \<noteq> [] \<and> c \<noteq> ''.'' \<and> c \<noteq> ''..'' \<and> CHR 0x00 \<notin> set c)"

definition normal_path :: "string \<Rightarrow> bool" where
  "normal_path p = list_all normal_component (components p)"

definition wf_fs :: "filesystem \<Rightarrow> bool" where
  "wf_fs fs =
     ((\<forall>p\<in>dirs fs \<union> dom (files fs).
         normal_path p \<and> set (butlast (parents p)) \<subseteq> dirs fs)
      \<and> dirs fs \<inter> dom (files fs) = {})"

text \<open>The decimal text of a Python integer, as an f-string field gives it.\<close>

function str_nat :: "nat \<Rightarrow> string" where
  "str_nat n =
     (if n < 10 then [''0123456789'' ! n]
      else str_nat (n div 10) @ [''0123456789'' ! (n mod 10)])"
  by pat_completeness auto
termination
  by (relation "measure (\<lambda>n. n)") auto

declare str_nat.simps [simp del]

definition str_int :: "int \<Rightarrow> string" where
  "str_int i = (if i < 0 then ''-'' @ str_nat (nat (- i)) else str_nat (nat i))"

text \<open>
  The loop \<open>for i, (r, g, b) in enumerate(self.pixels)\<close> over the text written so far.
  Python's \<open>%\<close> raises on a zero divisor, after the triple has been written.
\<close>

fun write_pixels :: "int \<Rightarrow> nat \<Rightarrow> pixel list \<Rightarrow> string \<Rightarrow> error \<times> string + string" where
  "write_pixels w i [] out = Inr out"
| "write_pixels w i ((r, g, b) # ps) out =
     (let out1 = out @ str_int r @ '' '' @ str_int g @ '' '' @ str_int b @ '' ''
      in if w = 0 then Inl (ZeroDivisionError, out1)
         else write_pixels w (i + 1) ps
                (if (int i + 1) mod w = 0 then out1 @ [nl] else out1))"

definition save_ppm :: "VGAFrameCapture \<Rightarrow> string \<Rightarrow> filesystem \<Rightarrow> error \<times> filesystem + filesystem" where
  "save_ppm self filename fs =
     (case makedirs fs (dirname filename) of
        Inl e \<Rightarrow> Inl e
      | Inr fs1 \<Rightarrow>
          (case open_w fs1 filename of
             Inl e \<Rightarrow> Inl e
           | Inr fs2 \<Rightarrow>
               (let out = ''P3'' @ [nl]
                      @ str_int (width self) @ '' '' @ str_int (height self) @ [nl]
                      @ ''255'' @ [nl]
                in case write_pixels (width self) 0 (pixels self) out of
                     Inl (e, out') \<Rightarrow> Inl (e, fs2\<lparr>files := (files fs2)(filename \<mapsto> out')\<rparr>)
                   | Inr out' \<Rightarrow> Inr (fs2\<lparr>files := (files fs2)(filename \<mapsto> out')\<rparr>))))"

text \<open>
  The raster text in the words of the specification: the three header lines, then the
  triples in order, a newline closing every complete row of \<open>n\<close> triples.
\<close>

definition triple_text :: "pixel \<Rightarrow> string" where
  "triple_text p =
     (case p of (r, g, b) \<Rightarrow> str_int r @ '' '' @ str_int g @ '' '' @ str_int b @ '' '')"

function rows_text :: "nat \<Rightarrow> pixel list \<Rightarrow> string" where
  "rows_text n px =
     (if n = 0 \<or> length px < n then concat (map triple_text px)
      else concat (map triple_text (take n px)) @ [nl] @ rows_text n (drop n px))"
  by pat_completeness auto
termination
  by (relation "measure (\<lambda>(n, px). length px)") auto

declare rows_text.simps [simp del]

definition ppm_header :: "int \<Rightarrow> int \<Rightarrow> string" where
  "ppm_header w h = ''P3'' @ [nl] @ str_int w @ '' '' @ str_int h @ [nl] @ ''255'' @ [nl]"

definition ppm_text :: "int \<Rightarrow> int \<Rightarrow> pixel list \<Rightarrow> string" where
  "ppm_text w h px = ppm_header w h @ rows_text (nat \<bar>w\<bar>) px"

text \<open>Frames to run the writer on: one of width 0 and one of two rows of two pixels.\<close>

definition zero_width_frame :: VGAFrameCapture where
  "zero_width_frame = \<lparr>width = 0, height = 480, pixels = [(0, 0, 0)]\<rparr>"

definition small_frame :: VGAFrameCapture where
  "small_frame =
     \<lparr>width = 2, height = 2,
      pixels = [(255, 0, 0), (0, 255, 0), (0, 0, 255), (36, 145, 85)]\<rparr>"

section \<open>Capture sessions\<close>

text \<open>
  \<open>capture_test_pattern\<close>: reset for 10 cycles, 100 more cycles, a fresh
  \<open>VGAFrameCapture()\<close> of 640 by 480, \<open>capture_frame\<close>, \<open>save_ppm\<close>.
\<close>

definition capture_test_pattern :: "tick_stream \<Rightarrow> filesystem \<Rightarrow> error \<times> filesystem + filesystem" where
  "capture_test_pattern s fs =
     (let frame = init 640 480;
          (t, frame') = capture_frame s (10 + 100) frame
      in save_ppm frame' ''output/test_pattern.ppm'' fs)"

section \<open>Notions of the specification and test streams\<close>

text \<open>
  A tick is active when both sync lines are asserted; the pixel of a sample is the
  expansion of its three colour fields.
\<close>

definition active :: "dut_sample \<Rightarrow> bool" where
  "active smp = (hsync smp = 1 \<and> vsync smp = 1)"

definition sampled_pixel :: "dut_sample \<Rightarrow> pixel" where
  "sampled_pixel smp =
     (expand_spec 3 (red smp), expand_spec 3 (green smp), expand_spec 2 (blue smp))"

text \<open>
  Streams to run the model on: one whose lines never change, and one that holds both sync
  lines and all colour bits high from edge \<open>a\<close> up to edge \<open>b\<close> and everything low
  otherwise.
\<close>

definition stalled_stream :: "dut_sample \<Rightarrow> tick_stream" where
  "stalled_stream smp t = smp"

definition all_low :: dut_sample where
  "all_low = \<lparr>uo_out = 0, uio_out = 0\<rparr>"

definition all_high :: dut_sample where
  "all_high = \<lparr>uo_out = 0xFF, uio_out = 0x03\<rparr>"

definition window_stream :: "nat \<Rightarrow> nat \<Rightarrow> tick_stream" where
  "window_stream a b t = (if a \<le> t \<and> t < b then all_high else all_low)"

definition empty_fs :: filesystem where
  "empty_fs = \<lparr>dirs = {}, files = Map.empty\<rparr>"

section \<open>Signal sampler: properties\<close>

lemma expand_spec_3: "expand_spec 3 v = (v * 255) div 7"
proof -
  have "(of_int v * 255 :: real) / (2 ^ 3 - 1) = of_int (v * 255) / of_int 7"
    by simp
  then show ?thesis
    unfolding expand_spec_def by (simp only: floor_divide_of_int_eq)
qed

lemma expand_spec_2: "expand_spec 2 v = (v * 255) div 3"
proof -
  have "(of_int v * 255 :: real) / (2 ^ 2 - 1) = of_int (v * 255) / of_int 3"
    by simp
  then show ?thesis
    unfolding expand_spec_def by (simp only: floor_divide_of_int_eq)
qed

text \<open>
  C2. For every red and green input in 0..7 and every blue input in 0..3 (indeed for all
  integers), \<open>add_pixel\<close> appends exactly the pixel of the floors of \<open>r * 255 / 7\<close>,
  \<open>g * 255 / 7\<close> and \<open>b * 255 / 3\<close>, the quotients taken in the reals; and
  \<open>add_pixel 7 7 3\<close> appends \<open>(255, 255, 255)\<close>.
\<close>

theorem add_pixel_appends_expansion:
  "add_pixel self r g b =
     self\<lparr>pixels := pixels self @ [(expand_spec 3 r, expand_spec 3 g, expand_spec 2 b)]\<rparr>
   \<and> add_pixel self 7 7 3 = self\<lparr>pixels := pixels self @ [(255, 255, 255)]\<rparr>"
  by (simp add: add_pixel_def expand_spec_3 expand_spec_2)

text \<open>
  C8. The expansion done by \<open>add_pixel\<close> is monotonic in each channel, whatever the
  other channels are, and exact at the endpoints: 0 goes to 0, and 7 (red, green) and 3
  (blue) go to 255.
\<close>

theorem add_pixel_monotonic_endpoints:
  "(r1 \<le> r2 \<longrightarrow>
      fst (last (pixels (add_pixel self r1 g1 b1)))
        \<le> fst (last (pixels (add_pixel self r2 g2 b2))))
   \<and> (g1 \<le> g2 \<longrightarrow>
      fst (snd (last (pixels (add_pixel self r1 g1 b1))))
        \<le> fst (snd (last (pixels (add_pixel self r2 g2 b2)))))
   \<and> (b1 \<le> b2 \<longrightarrow>
      snd (snd (last (pixels (add_pixel self r1 g1 b1))))
        \<le> snd (snd (last (pixels (add_pixel self r2 g2 b2)))))
   \<and> last (pixels (add_pixel self 0 0 0)) = (0, 0, 0)
   \<and> last (pixels (add_pixel self 7 7 3)) = (255, 255, 255)"
  by (simp add: add_pixel_def zdiv_mono1)

theorem add_pixel_monotonic_endpoints_witness:
  "((2::int) \<le> 5 \<and>
      fst (last (pixels (add_pixel (init 640 480) 2 1 0)))
        \<le> fst (last (pixels (add_pixel (init 640 480) 5 4 3))))
   \<and> ((1::int) \<le> 4 \<and>
      fst (snd (last (pixels (add_pixel (init 640 480) 2 1 0))))
        \<le> fst (snd (last (pixels (add_pixel (init 640 480) 5 4 3)))))
   \<and> ((0::int) \<le> 3 \<and>
      snd (snd (last (pixels (add_pixel (init 640 480) 2 1 0))))
        \<le> snd (snd (last (pixels (add_pixel (init 640 480) 5 4 3)))))"
  using add_pixel_monotonic_endpoints [of 2 5 "init 640 480" 1 0 4 3] by simp

section \<open>Frame synchronizer: properties\<close>

text \<open>A wait loop that sees its level for \<open>k\<close> ticks and then stops takes \<open>k\<close> ticks.\<close>

lemma wait_while_run:
  "\<lbrakk>\<forall>i<k. vsync (s (t + i)) = lvl; timeout + k \<le> 100000;
    vsync (s (t + k)) \<noteq> lvl \<or> timeout + k = 100000\<rbrakk>
   \<Longrightarrow> wait_while lvl s t timeout = (t + k, timeout + k)"
proof (induction k arbitrary: t timeout)
  case 0
  then show ?case by (subst wait_while.simps) auto
next
  case (Suc k)
  have a: "vsync (s t) = lvl" using Suc.prems(1) by force
  have b: "timeout < 100000" using Suc.prems(2) by simp
  have "wait_while lvl s (t + 1) (timeout + 1) = (t + 1 + k, timeout + 1 + k)"
  proof (rule Suc.IH)
    show "\<forall>i<k. vsync (s (t + 1 + i)) = lvl"
    proof (intro allI impI)
      fix i assume "i < k"
      then have "Suc i < Suc k" by simp
      with Suc.prems(1) have "vsync (s (t + Suc i)) = lvl" by blast
      then show "vsync (s (t + 1 + i)) = lvl" by simp
    qed
    show "timeout + 1 + k \<le> 100000" using Suc.prems(2) by simp
    show "vsync (s (t + 1 + k)) \<noteq> lvl \<or> timeout + 1 + k = 100000"
      using Suc.prems(3) by simp
  qed
  with a b show ?case by (subst wait_while.simps) simp
qed

lemma wait_while_skip:
  "vsync (s t) \<noteq> lvl \<or> 100000 \<le> timeout \<Longrightarrow> wait_while lvl s t timeout = (t, timeout)"
  by (subst wait_while.simps) auto

lemma vsync_cases: "vsync smp = 0 \<or> vsync smp = 1"
  by (simp add: vsync_def)

lemma wait_for_frame_sync_stalled:
  assumes "\<forall>t. vsync (s t) = vsync (s 0)"
  shows "wait_for_frame_sync s t = (t + 100000, 100000)"
proof (cases "vsync (s 0) = 1")
  case True
  have "\<forall>i<100000. vsync (s (t + i)) = 1" using assms True by metis
  then have 1: "wait_while 1 s t 0 = (t + 100000, 0 + 100000)"
    by (rule wait_while_run) simp_all
  have 2: "wait_while 0 s (t + 100000) 100000 = (t + 100000, 100000)"
    by (rule wait_while_skip) simp
  show ?thesis by (simp add: wait_for_frame_sync_def 1 2)
next
  case False
  then have z: "vsync (s 0) = 0" using vsync_cases by blast
  have "vsync (s t) \<noteq> 1" using assms z by (metis zero_neq_one)
  then have 1: "wait_while 1 s t 0 = (t, 0)"
    by (intro wait_while_skip) simp
  have "\<forall>i<100000. vsync (s (t + i)) = 0" using assms z by metis
  then have 2: "wait_while 0 s t 0 = (t + 100000, 0 + 100000)"
    by (rule wait_while_run) simp_all
  show ?thesis by (simp add: wait_for_frame_sync_def 1 2)
qed

text \<open>
  C6. On a tick stream whose vsync never changes, the wait phase of \<open>capture_frame\<close>
  consumes exactly 100000 ticks, not fewer and not more, and leaves the shared counter at
  100000: started after \<open>t\<close> edges it ends after \<open>t + 100000\<close>.
\<close>

theorem wait_phase_exact_budget:
  "\<forall>t. vsync (s t) = vsync (s 0) \<Longrightarrow>
   wait_for_frame_sync s t = (t + 100000, 100000)"
  by (rule wait_for_frame_sync_stalled)

theorem wait_phase_exact_budget_witness:
  "wait_for_frame_sync (stalled_stream all_high) 210 = (210 + 100000, 100000)"
  using wait_phase_exact_budget [of "stalled_stream all_high" 210]
  by (simp add: stalled_stream_def)

section \<open>Frame accumulator: properties\<close>

lemma sample_pixel_eq:
  "sample_pixel fc smp =
     (if active smp then fc\<lparr>pixels := pixels fc @ [sampled_pixel smp]\<rparr> else fc)"
  by (simp add: sample_pixel_def active_def sampled_pixel_def add_pixel_def
      expand_spec_3 expand_spec_2)

text \<open>
  What the capture loop collects: the pixels of the active ticks among the \<open>n\<close> ticks
  after \<open>t\<close>, in order, as many as the frame has room for.
\<close>

lemma capture_loop_pixels:
  "length (pixels fc) < 640 * 480 \<Longrightarrow>
   snd (capture_loop n s t fc) =
     fc\<lparr>pixels := pixels fc @ take (640 * 480 - length (pixels fc))
        (map sampled_pixel (filter active (map s [Suc t..<Suc t + n])))\<rparr>"
proof (induction n arbitrary: t fc)
  case 0
  then show ?case by simp
next
  case (Suc n)
  have upt: "[Suc t..<Suc (Suc (t + n))] = Suc t # [Suc (Suc t)..<Suc (Suc (t + n))]"
    by (simp add: upt_rec)
  show ?case
  proof (cases "active (s (Suc t))")
    case False
    with Suc show ?thesis
      by (simp add: sample_pixel_eq upt del: upt_Suc)
  next
    case True
    show ?thesis
    proof (cases "Suc (length (pixels fc)) < 640 * 480")
      case full: False
      with Suc.prems have "640 * 480 - length (pixels fc) = Suc 0" by simp
      with True full Suc.prems show ?thesis
        by (simp add: sample_pixel_eq upt del: upt_Suc)
    next
      case room: True
      let ?fc = "fc\<lparr>pixels := pixels fc @ [sampled_pixel (s (Suc t))]\<rparr>"
      have len: "length (pixels ?fc) < 640 * 480" using room by simp
      have d: "307200 - length (pixels fc) = Suc (307199 - length (pixels fc))"
        using room by simp
      show ?thesis
        using True room Suc.IH [OF len, of "Suc t"]
        by (simp add: sample_pixel_eq upt d del: upt_Suc)
    qed
  qed
qed

text \<open>
  A frame handed in full still takes the pixel of the first tick, since the loop tests
  the length after appending; then it stops.
\<close>

lemma capture_loop_full:
  assumes "640 * 480 \<le> length (pixels fc)"
  shows "snd (capture_loop n s t fc) =
     fc\<lparr>pixels := pixels fc @
        map sampled_pixel (filter active (map s [Suc t..<Suc t + min n 1]))\<rparr>"
proof (cases n)
  case 0
  then show ?thesis by simp
next
  case (Suc m)
  have "640 * 480 \<le> length (pixels (sample_pixel fc (s (Suc t))))"
    using assms by (simp add: sample_pixel_eq)
  then have "capture_loop (Suc m) s t fc = (Suc t, sample_pixel fc (s (Suc t)))"
    by (simp add: Let_def)
  then show ?thesis
    using Suc by (simp add: sample_pixel_eq)
qed


text \<open>
  C4. In the accumulation loop a tick appends a pixel if and only if hsync and vsync
  both read 1 at that tick, as long as the loop runs: from a frame that is not yet full,
  the loop appends the pixels of exactly the ticks with both lines at 1 among the \<open>n\<close>
  ticks after \<open>t\<close> (\<open>n = 500000\<close> in \<open>capture_frame\<close>), in order, cut off when the frame
  holds \<open>640 * 480\<close> pixels; from a full frame the loop runs for one tick only, and
  that tick obeys the same rule.
\<close>

theorem capture_loop_appends_iff_both_sync:
  "snd (capture_loop n s t fc) =
     (if length (pixels fc) < 640 * 480
      then fc\<lparr>pixels := pixels fc @ take (640 * 480 - length (pixels fc))
             (map sampled_pixel
               (filter (\<lambda>smp. hsync smp = 1 \<and> vsync smp = 1) (map s [Suc t..<Suc t + n])))\<rparr>
      else fc\<lparr>pixels := pixels fc @
             map sampled_pixel
               (filter (\<lambda>smp. hsync smp = 1 \<and> vsync smp = 1)
                 (map s [Suc t..<Suc t + min n 1]))\<rparr>)"
proof (cases "length (pixels fc) < 640 * 480")
  case True
  then show ?thesis
    using capture_loop_pixels [of fc n s t] by (simp add: active_def [abs_def])
next
  case False
  then have "640 * 480 \<le> length (pixels fc)" by simp
  from capture_loop_full [OF this, of n s t] False show ?thesis
    by (simp add: active_def [abs_def])
qed


theorem capture_loop_appends_iff_both_sync_witness:
  "snd (capture_loop 4 (window_stream 1 3) 0 (init 640 480)) =
     (init 640 480)\<lparr>pixels := [(255, 255, 255), (255, 255, 255)]\<rparr>"
  using capture_loop_appends_iff_both_sync [of 4 "window_stream 1 3" 0 "init 640 480"]
  by (simp add: init_def window_stream_def sampled_pixel_def expand_spec_3 expand_spec_2
      hsync_def vsync_def red_def green_def blue_def all_high_def all_low_def upt_rec)

lemma pad_black_eq: "pad_black px = px @ replicate (640 * 480 - length px) (0, 0, 0)"
proof (induction px rule: pad_black.induct)
  case (1 px)
  show ?case
  proof (cases "length px < 640 * 480")
    case True
    then have "replicate (640 * 480 - length px) (0::int, 0::int, 0::int)
        = (0, 0, 0) # replicate (640 * 480 - length (px @ [(0::int, 0::int, 0::int)])) (0, 0, 0)"
      by (simp add: Suc_diff_Suc flip: replicate_Suc)
    with True 1 show ?thesis
      by (subst pad_black.simps) simp
  next
    case False
    then show ?thesis by (subst pad_black.simps) simp
  qed
qed

text \<open>
  C1. For every tick stream, every call time and every frame handed in, the pixel list
  has length exactly \<open>640 * 480 = 307200\<close> when \<open>capture_frame\<close> returns, whether the
  capture filled the frame, ended short and was padded, or held too many pixels and was
  truncated.
\<close>

theorem capture_frame_length:
  "length (pixels (snd (capture_frame s t frame_capture))) = 307200"
  by (auto simp add: capture_frame_def pad_black_eq split: prod.splits)

section \<open>Raster writer: properties\<close>

text \<open>
  The newline test of \<open>save_ppm\<close> in terms of the row length \<open>nat \<bar>w\<bar>\<close>, and the loop
  against the rows of the specification, started anywhere in a row.
\<close>

lemma mod_width_iff:
  assumes "w \<noteq> 0"
  shows "(int i + 1) mod w = 0 \<longleftrightarrow> Suc i mod nat \<bar>w\<bar> = 0"
proof -
  have "(int i + 1) mod w = 0 \<longleftrightarrow> w dvd int (Suc i)"
    by (simp add: mod_eq_0_iff_dvd add.commute)
  also have "\<dots> \<longleftrightarrow> \<bar>w\<bar> dvd int (Suc i)" by simp
  also have "\<dots> \<longleftrightarrow> int (nat \<bar>w\<bar>) dvd int (Suc i)" by simp
  also have "\<dots> \<longleftrightarrow> nat \<bar>w\<bar> dvd Suc i" by (rule int_dvd_int_iff)
  also have "\<dots> \<longleftrightarrow> Suc i mod nat \<bar>w\<bar> = 0" by (simp add: mod_eq_0_iff_dvd)
  finally show ?thesis .
qed

lemma write_pixels_rows:
  assumes "w \<noteq> 0"
  shows "write_pixels w i ps out =
     Inr (out @ (if length ps < nat \<bar>w\<bar> - i mod nat \<bar>w\<bar> then concat (map triple_text ps)
                 else concat (map triple_text (take (nat \<bar>w\<bar> - i mod nat \<bar>w\<bar>) ps)) @ [nl]
                        @ rows_text (nat \<bar>w\<bar>) (drop (nat \<bar>w\<bar> - i mod nat \<bar>w\<bar>) ps)))"
proof (induction ps arbitrary: i out)
  case Nil
  have "0 < nat \<bar>w\<bar>" using assms by simp
  then have "0 < nat \<bar>w\<bar> - i mod nat \<bar>w\<bar>" by simp
  then show ?case by simp
next
  case (Cons p ps)
  obtain r g b where p: "p = (r, g, b)" by (cases p)
  let ?n = "nat \<bar>w\<bar>"
  have n: "0 < ?n" using assms by simp
  then have k: "i mod ?n < ?n" by simp
  show ?case
  proof (cases "Suc i mod ?n = 0")
    case True
    then have e: "Suc (i mod ?n) = ?n" using n by (simp add: mod_Suc split: if_splits)
    then have d: "?n - i mod ?n = Suc 0" by linarith
    have z: "?n - Suc i mod ?n = ?n" using True by simp
    have r: "rows_text ?n ps = (if length ps < ?n then concat (map triple_text ps)
         else concat (map triple_text (take ?n ps)) @ [nl] @ rows_text ?n (drop ?n ps))"
      using n by (subst rows_text.simps) simp
    show ?thesis
      using True assms Cons.IH[of "Suc i"] r
      by (simp add: p mod_width_iff d z triple_text_def)
  next
    case False
    then have e: "Suc i mod ?n = Suc (i mod ?n)" by (simp add: mod_Suc split: if_splits)
    then have lt: "Suc (i mod ?n) < ?n" using n by (metis mod_less_divisor)
    then have d: "?n - i mod ?n = Suc (?n - Suc i mod ?n)" using e by linarith
    show ?thesis
      using False assms Cons.IH[of "Suc i"]
      by (simp add: p mod_width_iff d triple_text_def)
  qed
qed

lemma write_pixels_ok:
  "w \<noteq> 0 \<Longrightarrow> write_pixels w 0 ps out = Inr (out @ rows_text (nat \<bar>w\<bar>) ps)"
  by (subst rows_text.simps) (simp add: write_pixels_rows)

text \<open>Paths: the head of a path, the directories on the way to it.\<close>

lemma rstrip_sep_empty_iff: "rstrip_sep h = [] \<longleftrightarrow> h = replicate (length h) sep"
proof -
  have "rstrip_sep h = [] \<longleftrightarrow> (\<forall>c\<in>set h. c = sep)"
    by (simp add: rstrip_sep_def dropWhile_eq_Nil_conv)
  also have "\<dots> \<longleftrightarrow> h = replicate (length h) sep"
    by (metis replicate_eqI in_set_replicate)
  finally show ?thesis .
qed

lemma dirname_empty_iff: "dirname p = [] \<longleftrightarrow> sep \<notin> set p"
proof -
  have "rev (dropWhile (\<lambda>c. c \<noteq> sep) (rev p)) = [] \<longleftrightarrow> sep \<notin> set p"
    by (auto simp add: dropWhile_eq_Nil_conv)
  then show ?thesis
    by (auto simp add: dirname_def split_path_def Let_def rstrip_sep_empty_iff)
qed

lemma length_rstrip_sep: "length (rstrip_sep h) \<le> length h"
  by (simp add: rstrip_sep_def) (metis length_dropWhile_le length_rev)

lemma length_dirname:
  assumes "p \<noteq> []" "last p \<noteq> sep"
  shows "length (dirname p) < length p"
proof -
  let ?tail = "takeWhile (\<lambda>c. c \<noteq> sep) (rev p)"
  let ?head = "dropWhile (\<lambda>c. c \<noteq> sep) (rev p)"
  have "hd (rev p) \<noteq> sep" using assms by (simp add: hd_rev)
  then have "?tail \<noteq> []" using assms(1) by (cases "rev p") auto
  moreover have "length ?tail + length ?head = length p"
    by (metis length_append length_rev takeWhile_dropWhile_id)
  ultimately have "length (rev ?head) < length p" by (cases ?tail) auto
  moreover have "length (rstrip_sep (rev ?head)) \<le> length (rev ?head)"
    by (rule length_rstrip_sep)
  ultimately show ?thesis
    by (simp add: dirname_def split_path_def Let_def)
qed

lemma parents_length: "p \<in> set (parents d) \<Longrightarrow> length p \<le> length d"
  by (auto simp add: parents_def)

lemma parents_self: "d \<in> set (parents d)"
  by (simp add: parents_def)

lemma filename_not_parent:
  assumes "filename \<noteq> []" "last filename \<noteq> sep"
  shows "filename \<notin> set (parents (dirname filename))"
  using parents_length [of filename "dirname filename"] length_dirname [OF assms] by auto

lemma makedirs_Inr_iff:
  "makedirs fs name = Inr fs1 \<longleftrightarrow>
     name \<noteq> [] \<and> (\<forall>p\<in>set (parents name). files fs p = None)
     \<and> fs1 = fs\<lparr>dirs := dirs fs \<union> set (parents name)\<rparr>"
proof (cases "find (\<lambda>p. files fs p \<noteq> None) (parents name)")
  case None
  then have "\<forall>p\<in>set (parents name). files fs p = None"
    by (simp add: find_None_iff)
  with None show ?thesis by (auto simp add: makedirs_def)
next
  case (Some q)
  then have "q \<in> set (parents name) \<and> files fs q \<noteq> None"
    by (auto simp add: find_Some_iff)
  with Some show ?thesis by (auto simp add: makedirs_def)
qed

lemma open_w_after_makedirs:
  assumes "dirname filename \<noteq> []" "\<forall>p\<in>set (parents (dirname filename)). files fs p = None"
  shows "open_w (fs\<lparr>dirs := dirs fs \<union> set (parents (dirname filename))\<rparr>) filename = Inr fs2 \<longleftrightarrow>
     filename \<notin> dirs fs \<and> last filename \<noteq> sep
     \<and> fs2 = \<lparr>dirs = dirs fs \<union> set (parents (dirname filename)),
              files = (files fs)(filename \<mapsto> [])\<rparr>"
proof -
  have ne: "filename \<noteq> []" using assms(1) by (auto simp add: dirname_empty_iff)
  have nf: "files fs (dirname filename) = None" using assms(2) parents_self by blast
  show ?thesis
    using ne nf filename_not_parent [OF ne] parents_self [of "dirname filename"]
    by (auto simp add: open_w_def Let_def)
qed


lemma save_ppm_Inr_iff:
  "save_ppm self filename fs = Inr fs1 \<longleftrightarrow>
     dirname filename \<noteq> [] \<and> (\<forall>p\<in>set (parents (dirname filename)). files fs p = None)
     \<and> filename \<notin> dirs fs \<and> last filename \<noteq> sep
     \<and> (\<exists>out. write_pixels (width self) 0 (pixels self) (ppm_header (width self) (height self)) = Inr out
          \<and> fs1 = \<lparr>dirs = dirs fs \<union> set (parents (dirname filename)),
                   files = (files fs)(filename \<mapsto> out)\<rparr>)"
proof (cases "dirname filename \<noteq> [] \<and> (\<forall>p\<in>set (parents (dirname filename)). files fs p = None)")
  case False
  then have "\<And>fs1. makedirs fs (dirname filename) \<noteq> Inr fs1"
    by (auto simp add: makedirs_Inr_iff)
  with False show ?thesis
    by (auto simp add: save_ppm_def split: sum.splits)
next
  case True
  then have m: "makedirs fs (dirname filename) = Inr (fs\<lparr>dirs := dirs fs \<union> set (parents (dirname filename))\<rparr>)"
    by (simp add: makedirs_Inr_iff)
  show ?thesis
  proof (cases "filename \<notin> dirs fs \<and> last filename \<noteq> sep")
    case False
    with True have "\<And>fs2. open_w (fs\<lparr>dirs := dirs fs \<union> set (parents (dirname filename))\<rparr>) filename \<noteq> Inr fs2"
      using open_w_after_makedirs [of filename fs] by blast
    with True False show ?thesis
      by (auto simp add: save_ppm_def m split: sum.splits)
  next
    case ok: True
    with True have o: "open_w (fs\<lparr>dirs := dirs fs \<union> set (parents (dirname filename))\<rparr>) filename
        = Inr \<lparr>dirs = dirs fs \<union> set (parents (dirname filename)), files = (files fs)(filename \<mapsto> [])\<rparr>"
      using open_w_after_makedirs [of filename fs] by blast
    show ?thesis
      using True ok
      by (auto simp add: save_ppm_def m o ppm_header_def split: sum.splits)
  qed
qed

lemma save_ppm_ok:
  assumes "width self \<noteq> 0" "dirname filename \<noteq> []"
    "\<forall>p\<in>set (parents (dirname filename)). files fs p = None"
    "filename \<notin> dirs fs" "last filename \<noteq> sep"
  shows "save_ppm self filename fs =
     Inr \<lparr>dirs = dirs fs \<union> set (parents (dirname filename)),
          files = (files fs)(filename \<mapsto> ppm_text (width self) (height self) (pixels self))\<rparr>"
  using assms by (simp add: save_ppm_Inr_iff write_pixels_ok ppm_text_def)

lemma str_nat_digit: "n < 10 \<Longrightarrow> str_nat n = [''0123456789'' ! n]"
  by (subst str_nat.simps) simp

lemma str_nat_more: "10 \<le> n \<Longrightarrow> str_nat n = str_nat (n div 10) @ [''0123456789'' ! (n mod 10)]"
  by (subst str_nat.simps) simp


text \<open>
  Paths in normal form: what their components, their heads and the directories on the
  way to them are, and that writing a file keeps a file system state well formed.
\<close>

lemma split_sep_append:
  "split_sep acc (xs @ sep # ys) = split_sep acc xs @ split_sep [] ys"
  by (induction xs arbitrary: acc) simp_all

lemma components_append:
  "components (xs @ sep # ys) = components xs @ components ys"
  by (simp add: components_def split_sep_append)

lemma normal_path_append:
  "normal_path (xs @ sep # ys) \<longleftrightarrow> normal_path xs \<and> normal_path ys"
  by (simp add: normal_path_def components_append)

lemma not_normal_Nil: "\<not> normal_path []"
  by (simp add: normal_path_def components_def normal_component_def)

lemma normal_path_last:
  assumes "normal_path p"
  shows "p \<noteq> [] \<and> last p \<noteq> sep"
proof -
  have ne: "p \<noteq> []" using assms not_normal_Nil by blast
  have "last p \<noteq> sep"
  proof
    assume "last p = sep"
    with ne have "p = butlast p @ sep # []" by (metis append_butlast_last_id)
    then have "normal_path (butlast p @ sep # [])" using assms by simp
    then show False by (simp add: normal_path_append not_normal_Nil)
  qed
  with ne show ?thesis by simp
qed

lemma normal_path_take:
  assumes "normal_path p" "i < length p" "p ! i = sep"
  shows "normal_path (take i p)"
proof -
  have "p = take i p @ sep # drop (Suc i) p"
    using assms(2,3) by (metis id_take_nth_drop)
  then have "normal_path (take i p @ sep # drop (Suc i) p)" using assms(1) by simp
  then show ?thesis by (simp only: normal_path_append)
qed

lemma ancestors_iff:
  "x \<in> set (butlast (parents p)) \<longleftrightarrow>
     (\<exists>i. 1 \<le> i \<and> i < length p \<and> p ! i = sep \<and> p ! (i - 1) \<noteq> sep \<and> x = take i p)"
  by (auto simp add: parents_def butlast_append)

lemma parents_set: "set (parents p) = insert p (set (butlast (parents p)))"
  by (auto simp add: parents_def butlast_append)

lemma ancestors_take:
  assumes "i < length p"
  shows "set (butlast (parents (take i p))) \<subseteq> set (butlast (parents p))"
proof
  fix x assume "x \<in> set (butlast (parents (take i p)))"
  then obtain j where j: "1 \<le> j" "j < length (take i p)" "take i p ! j = sep"
      "take i p ! (j - 1) \<noteq> sep" "x = take j (take i p)"
    unfolding ancestors_iff by blast
  then have "j < i" by simp
  with j assms have "1 \<le> j \<and> j < length p \<and> p ! j = sep \<and> p ! (j - 1) \<noteq> sep \<and> x = take j p"
    by (simp add: min_def)
  then show "x \<in> set (butlast (parents p))" unfolding ancestors_iff by blast
qed

lemma parents_normal:
  assumes "normal_path d" "q \<in> set (parents d)"
  shows "normal_path q \<and> set (butlast (parents q)) \<subseteq> set (parents d)"
proof (cases "q = d")
  case True
  with assms(1) show ?thesis by (auto simp add: parents_set)
next
  case False
  with assms(2) have "q \<in> set (butlast (parents d))" by (simp add: parents_set)
  then obtain i where i: "i < length d" "d ! i = sep" "q = take i d"
    unfolding ancestors_iff by blast
  have "normal_path q" using normal_path_take [OF assms(1) i(1,2)] i(3) by simp
  moreover have "set (butlast (parents q)) \<subseteq> set (parents d)"
    using ancestors_take [OF i(1)] i(3) by (auto simp add: parents_set)
  ultimately show ?thesis by simp
qed

lemma normal_path_split:
  assumes "normal_path p" "dirname p \<noteq> []"
  shows "\<exists>zs. p = dirname p @ sep # zs \<and> sep \<notin> set zs \<and> normal_path (dirname p)"
proof -
  have "sep \<in> set p" using assms(2) by (simp add: dirname_empty_iff)
  then obtain ys zs where p: "p = ys @ sep # zs" "sep \<notin> set zs"
    by (meson split_list_last)
  have nys: "normal_path ys" using assms(1) p(1) by (simp add: normal_path_append)
  then have l: "ys \<noteq> []" "last ys \<noteq> sep" using normal_path_last by blast+
  have "dropWhile (\<lambda>c. c \<noteq> sep) (rev zs @ sep # rev ys)
      = dropWhile (\<lambda>c. c \<noteq> sep) (sep # rev ys)"
    using p(2) by (intro dropWhile_append2) auto
  then have dw: "dropWhile (\<lambda>c. c \<noteq> sep) (rev p) = sep # rev ys"
    using p(1) by simp
  have ns: "ys @ [sep] \<noteq> replicate (Suc (length ys)) sep"
  proof
    assume "ys @ [sep] = replicate (Suc (length ys)) sep"
    then have "set (ys @ [sep]) \<subseteq> {sep}" by (metis set_replicate_conv_if subset_refl empty_subsetI)
    then have "last ys = sep" using l(1) by (metis last_in_set Un_iff set_append singletonD subsetD)
    with l(2) show False by simp
  qed
  have "hd (rev ys) \<noteq> sep" using l by (simp add: hd_rev)
  then have rs: "dropWhile (\<lambda>c. c = sep) (rev ys) = rev ys"
    using l(1) by (cases "rev ys") auto
  have "dirname p = ys"
    using ns by (simp add: dirname_def split_path_def Let_def dw rstrip_sep_def rs)
  with p nys have "p = dirname p @ sep # zs \<and> sep \<notin> set zs \<and> normal_path (dirname p)"
    by simp
  then show ?thesis ..
qed

lemma ancestors_of_file:
  assumes "normal_path p" "dirname p \<noteq> []"
  shows "set (butlast (parents p)) \<subseteq> set (parents (dirname p))"
proof
  obtain zs where p: "p = dirname p @ sep # zs" "sep \<notin> set zs"
    using normal_path_split [OF assms] by blast
  let ?d = "dirname p"
  fix x assume "x \<in> set (butlast (parents p))"
  then obtain i where i: "1 \<le> i" "i < length p" "p ! i = sep" "p ! (i - 1) \<noteq> sep" "x = take i p"
    unfolding ancestors_iff by blast
  have "\<not> length ?d < i"
  proof
    assume gt: "length ?d < i"
    have "p ! i = (?d @ sep # zs) ! i" using p(1) by simp
    also have "\<dots> = zs ! (i - Suc (length ?d))"
      using gt by (simp add: nth_append nth_Cons')
    finally have "zs ! (i - Suc (length ?d)) = sep" using i(3) by simp
    moreover have "i - Suc (length ?d) < length zs"
    proof -
      have "length p = length ?d + Suc (length zs)" by (subst p(1)) simp
      with i(2) gt show ?thesis by linarith
    qed
    ultimately show False using p(2) by (metis nth_mem)
  qed
  then have le: "i \<le> length ?d" by simp
  show "x \<in> set (parents ?d)"
  proof (cases "i = length ?d")
    case True
    have "take i p = take i (?d @ sep # zs)" using p(1) by simp
    then have "x = ?d" using True i(5) by simp
    then show ?thesis by (simp add: parents_self)
  next
    case False
    with le have lt: "i < length ?d" by simp
    have e: "p ! i = ?d ! i" "p ! (i - 1) = ?d ! (i - 1)" "take i p = take i ?d"
    proof -
      have a: "p ! i = (?d @ sep # zs) ! i" "p ! (i - 1) = (?d @ sep # zs) ! (i - 1)"
        "take i p = take i (?d @ sep # zs)" using p(1) by simp_all
      show "p ! i = ?d ! i" using a(1) lt by (simp add: nth_append)
      have "i - 1 < length ?d" using lt by simp
      then show "p ! (i - 1) = ?d ! (i - 1)" using a(2) by (simp add: nth_append)
      show "take i p = take i ?d" using a(3) lt by simp
    qed
    have "x \<in> set (butlast (parents ?d))"
      unfolding ancestors_iff using i lt e by auto
    then show ?thesis by (simp add: parents_set)
  qed
qed

lemma wf_fs_save:
  assumes "normal_path filename" "dirname filename \<noteq> []" "wf_fs fs"
    "\<forall>p\<in>set (parents (dirname filename)). files fs p = None" "filename \<notin> dirs fs"
  shows "wf_fs \<lparr>dirs = dirs fs \<union> set (parents (dirname filename)),
               files = (files fs)(filename \<mapsto> out)\<rparr>"
proof -
  let ?d = "dirname filename"
  let ?D = "dirs fs \<union> set (parents ?d)"
  have nd: "normal_path ?d" using normal_path_split [OF assms(1,2)] by blast
  have l: "filename \<noteq> []" "last filename \<noteq> sep" using normal_path_last [OF assms(1)] by simp_all
  have np: "filename \<notin> set (parents ?d)" using filename_not_parent [OF l] .
  have old: "\<And>p. p \<in> dirs fs \<union> dom (files fs) \<Longrightarrow>
      normal_path p \<and> set (butlast (parents p)) \<subseteq> ?D"
    using assms(3) by (auto simp add: wf_fs_def)
  have new_dir: "\<And>p. p \<in> set (parents ?d) \<Longrightarrow>
      normal_path p \<and> set (butlast (parents p)) \<subseteq> ?D"
    using parents_normal [OF nd] by blast
  have new_file: "normal_path filename \<and> set (butlast (parents filename)) \<subseteq> ?D"
    using assms(1) ancestors_of_file [OF assms(1,2)] by blast
  have entries: "\<forall>p\<in>?D \<union> dom ((files fs)(filename \<mapsto> out)).
      normal_path p \<and> set (butlast (parents p)) \<subseteq> ?D"
  proof
    fix p assume "p \<in> ?D \<union> dom ((files fs)(filename \<mapsto> out))"
    then consider "p \<in> dirs fs \<union> dom (files fs)" | "p \<in> set (parents ?d)" | "p = filename"
      by auto
    then show "normal_path p \<and> set (butlast (parents p)) \<subseteq> ?D"
      using old new_dir new_file by cases blast+
  qed
  have "dirs fs \<inter> dom (files fs) = {}" using assms(3) by (simp add: wf_fs_def)
  moreover have "set (parents ?d) \<inter> dom (files fs) = {}" using assms(4) by auto
  ultimately have disj: "?D \<inter> dom ((files fs)(filename \<mapsto> out)) = {}"
    using assms(5) np by auto
  show ?thesis using entries disj by (simp add: wf_fs_def)
qed


text \<open>
  Other spellings of a path are not in normal form, so nothing is said about them here.
\<close>

lemma other_spellings_not_normal:
  "\<not> normal_path ''./out/img.ppm''" "\<not> normal_path ''a//b/img.ppm''"
  "\<not> normal_path ''out/../out/img.ppm''" "\<not> normal_path ''/out/img.ppm''"
  "\<not> normal_path ''out/''"
  by (simp_all add: normal_path_def components_def normal_component_def sep_def)

text \<open>
  C7, as amended. For every width other than 0, every height and every pixel list, every
  well-formed file system state and every relative output path in normal form that has a
  directory part, names no directory and has no regular file on the way to its
  directory, \<open>save_ppm\<close> first makes the directories on the way to the output path, then
  writes the line \<open>P3\<close>, the line of width and height, the line \<open>255\<close>, and the decimal
  triples in insertion order, each followed by a space, with a newline after every
  complete row of \<open>\<bar>width\<bar>\<close> triples; the file system state it leaves is well formed.
\<close>

theorem save_ppm_writes_raster:
  assumes "width self \<noteq> 0" "normal_path filename" "dirname filename \<noteq> []" "wf_fs fs"
    "\<forall>p\<in>set (parents (dirname filename)). files fs p = None" "filename \<notin> dirs fs"
  shows "save_ppm self filename fs =
     Inr \<lparr>dirs = dirs fs \<union> set (parents (dirname filename)),
          files = (files fs)(filename \<mapsto> ppm_text (width self) (height self) (pixels self))\<rparr>
   \<and> wf_fs \<lparr>dirs = dirs fs \<union> set (parents (dirname filename)),
          files = (files fs)(filename \<mapsto> ppm_text (width self) (height self) (pixels self))\<rparr>"
proof -
  have "last filename \<noteq> sep" using normal_path_last [OF assms(2)] by simp
  then have "save_ppm self filename fs =
     Inr \<lparr>dirs = dirs fs \<union> set (parents (dirname filename)),
          files = (files fs)(filename \<mapsto> ppm_text (width self) (height self) (pixels self))\<rparr>"
    using assms by (intro save_ppm_ok) simp_all
  then show ?thesis using wf_fs_save [OF assms(2,3,4,5,6)] by simp
qed


theorem save_ppm_writes_raster_witness:
  "normal_path ''out/img.ppm'' \<and> wf_fs empty_fs \<and>
   save_ppm small_frame ''out/img.ppm'' empty_fs =
     Inr \<lparr>dirs = {''out''},
          files = [''out/img.ppm'' \<mapsto> ''P3'' @ [nl] @ ''2 2'' @ [nl] @ ''255'' @ [nl]
             @ ''255 0 0 0 255 0 '' @ [nl] @ ''0 0 255 36 145 85 '' @ [nl]]\<rparr>"
proof -
  have n: "normal_path ''out/img.ppm''"
    by (simp add: normal_path_def components_def normal_component_def sep_def)
  have w: "wf_fs empty_fs" by (simp add: wf_fs_def empty_fs_def)
  have d: "dirname ''out/img.ppm'' = ''out''" "parents ''out'' = [''out'']"
    by (simp_all add: dirname_def split_path_def rstrip_sep_def sep_def parents_def Let_def)
  have "save_ppm small_frame ''out/img.ppm'' empty_fs =
     Inr \<lparr>dirs = dirs empty_fs \<union> set (parents (dirname ''out/img.ppm'')),
          files = (files empty_fs)(''out/img.ppm'' \<mapsto>
            ppm_text (width small_frame) (height small_frame) (pixels small_frame))\<rparr>"
    using save_ppm_writes_raster [of small_frame "''out/img.ppm''" empty_fs, OF _ n _ w]
    by (simp add: d small_frame_def empty_fs_def)
  then show ?thesis
    using n w
    by (simp add: d small_frame_def empty_fs_def str_int_def str_nat_digit str_nat_more
        ppm_text_def ppm_header_def rows_text.simps triple_text_def)
qed

text \<open>
  C7 as stated fails at width 0: with a pixel in the list, the newline test divides by
  zero after the header and the first triple are written, and \<open>save_ppm\<close> raises
  \<open>ZeroDivisionError\<close>.
\<close>

theorem save_ppm_zero_width_raises:
  "save_ppm zero_width_frame ''output/frame.ppm'' empty_fs =
     Inl (ZeroDivisionError,
          \<lparr>dirs = {''output''},
           files = [''output/frame.ppm'' \<mapsto> ''P3'' @ [nl] @ ''0 480'' @ [nl] @ ''255'' @ [nl] @ ''0 0 0 '']\<rparr>)"
  by (simp add: save_ppm_def zero_width_frame_def empty_fs_def dirname_def split_path_def rstrip_sep_def
      sep_def makedirs_def parents_def open_w_def Let_def str_int_def str_nat_digit str_nat_more)


text \<open>
  The outcome of \<open>save_ppm\<close> once the path is in order, and the errors of its parts: only
  the pixel loop divides.
\<close>

lemma write_pixels_Inl:
  "write_pixels w i ps out = Inl (e, out') \<Longrightarrow> e = ZeroDivisionError"
proof (induction ps arbitrary: i out)
  case Nil
  then show ?case by simp
next
  case (Cons p ps)
  obtain r g b where p: "p = (r, g, b)" by (cases p)
  show ?case
  proof (cases "w = 0")
    case True
    with Cons.prems show ?thesis by (simp add: p)
  next
    case False
    with Cons.prems show ?thesis
      by (simp add: p Let_def) (erule Cons.IH)
  qed
qed

lemma save_ppm_path_ok:
  assumes "dirname filename \<noteq> []" "\<forall>p\<in>set (parents (dirname filename)). files fs p = None"
    "filename \<notin> dirs fs" "last filename \<noteq> sep"
  shows "save_ppm self filename fs =
     (case write_pixels (width self) 0 (pixels self) (ppm_header (width self) (height self)) of
        Inl (e, out) \<Rightarrow>
          Inl (e, \<lparr>dirs = dirs fs \<union> set (parents (dirname filename)),
                  files = (files fs)(filename \<mapsto> out)\<rparr>)
      | Inr out \<Rightarrow>
          Inr \<lparr>dirs = dirs fs \<union> set (parents (dirname filename)),
               files = (files fs)(filename \<mapsto> out)\<rparr>)"
proof -
  have m: "makedirs fs (dirname filename) = Inr (fs\<lparr>dirs := dirs fs \<union> set (parents (dirname filename))\<rparr>)"
    using assms(1,2) by (simp add: makedirs_Inr_iff)
  have o: "open_w (fs\<lparr>dirs := dirs fs \<union> set (parents (dirname filename))\<rparr>) filename
        = Inr \<lparr>dirs = dirs fs \<union> set (parents (dirname filename)), files = (files fs)(filename \<mapsto> [])\<rparr>"
    using open_w_after_makedirs [OF assms(1,2)] assms(3,4) by blast
  show ?thesis
    by (simp add: save_ppm_def m o ppm_header_def split: sum.splits prod.splits)
qed

lemma makedirs_Inl:
  "makedirs fs name = Inl (e, fs1) \<Longrightarrow> e \<noteq> ZeroDivisionError \<and> fs1 = fs"
  by (auto simp add: makedirs_def split: if_splits option.splits)

lemma open_w_Inl:
  "open_w fs name = Inl (e, fs1) \<Longrightarrow> e \<noteq> ZeroDivisionError \<and> fs1 = fs"
  by (auto simp add: open_w_def Let_def split: if_splits)

lemma save_ppm_ZeroDivisionError:
  assumes "save_ppm self filename fs = Inl (ZeroDivisionError, fs1)"
  shows "dirname filename \<noteq> [] \<and> (\<forall>p\<in>set (parents (dirname filename)). files fs p = None)
     \<and> filename \<notin> dirs fs \<and> last filename \<noteq> sep"
proof (cases "makedirs fs (dirname filename)")
  case (Inl a)
  with assms makedirs_Inl [of fs "dirname filename" "fst a" "snd a"] show ?thesis
    by (auto simp add: save_ppm_def)
next
  case (Inr fs')
  then have mk: "dirname filename \<noteq> []" "\<forall>p\<in>set (parents (dirname filename)). files fs p = None"
    "fs' = fs\<lparr>dirs := dirs fs \<union> set (parents (dirname filename))\<rparr>"
    by (simp_all add: makedirs_Inr_iff)
  show ?thesis
  proof (cases "open_w fs' filename")
    case (Inl a)
    with assms Inr open_w_Inl [of fs' filename "fst a" "snd a"] show ?thesis
      by (auto simp add: save_ppm_def)
  next
    case op: (Inr fs2)
    then show ?thesis
      using mk open_w_after_makedirs [OF mk(1,2), of fs2] by simp
  qed
qed


text \<open>
  C9. Serialization is deterministic and idempotent: two invocations of \<open>save_ppm\<close> on
  the same frame that get to write (they return, or raise in the pixel loop), whatever
  the paths and the file systems, leave byte-identical file contents, and a second
  invocation on the same path ends as the first one did and leaves the file system as
  the first one left it.
\<close>

theorem save_ppm_idempotent:
  assumes "save_ppm self filename fs = Inr fs1
           \<or> save_ppm self filename fs = Inl (ZeroDivisionError, fs1)"
    and "save_ppm self filename' fs' = Inr fs2
           \<or> save_ppm self filename' fs' = Inl (ZeroDivisionError, fs2)"
  shows "files fs1 filename = files fs2 filename'
     \<and> save_ppm self filename fs1 = save_ppm self filename fs"
proof -
  let ?W = "write_pixels (width self) 0 (pixels self) (ppm_header (width self) (height self))"
  let ?out = "case ?W of Inl (e, out) \<Rightarrow> out | Inr out \<Rightarrow> out"
  have ok1: "dirname filename \<noteq> []" "\<forall>p\<in>set (parents (dirname filename)). files fs p = None"
    "filename \<notin> dirs fs" "last filename \<noteq> sep"
    using assms(1) save_ppm_ZeroDivisionError [of self filename fs fs1]
      save_ppm_Inr_iff [of self filename fs fs1] by blast+
  have ok2: "dirname filename' \<noteq> []" "\<forall>p\<in>set (parents (dirname filename')). files fs' p = None"
    "filename' \<notin> dirs fs'" "last filename' \<noteq> sep"
    using assms(2) save_ppm_ZeroDivisionError [of self filename' fs' fs2]
      save_ppm_Inr_iff [of self filename' fs' fs2] by blast+
  have fs1: "fs1 = \<lparr>dirs = dirs fs \<union> set (parents (dirname filename)),
                   files = (files fs)(filename \<mapsto> ?out)\<rparr>"
    using assms(1) save_ppm_path_ok [OF ok1, of self]
    by (auto split: sum.splits prod.splits)
  have fs2: "fs2 = \<lparr>dirs = dirs fs' \<union> set (parents (dirname filename')),
                   files = (files fs')(filename' \<mapsto> ?out)\<rparr>"
    using assms(2) save_ppm_path_ok [OF ok2, of self]
    by (auto split: sum.splits prod.splits)
  have same: "files fs1 filename = files fs2 filename'"
    by (simp add: fs1 fs2)
  have ne: "filename \<noteq> []" using ok1(1) by (auto simp add: dirname_empty_iff)
  have np: "filename \<notin> set (parents (dirname filename))"
    using filename_not_parent [OF ne ok1(4)] .
  have a: "\<forall>p\<in>set (parents (dirname filename)). files fs1 p = None"
    using ok1(2) np by (auto simp add: fs1)
  have b: "filename \<notin> dirs fs1" using ok1(3) np by (simp add: fs1)
  have "save_ppm self filename fs1 = save_ppm self filename fs"
    unfolding save_ppm_path_ok [OF ok1(1) a b ok1(4)] save_ppm_path_ok [OF ok1]
    by (simp add: fs1 Un_absorb1 split: sum.splits prod.splits)
  with same show ?thesis by simp
qed

theorem save_ppm_idempotent_witness:
  "files (projr (save_ppm small_frame ''out/img.ppm'' empty_fs)) ''out/img.ppm''
     = files (projr (save_ppm small_frame ''a/b/c.ppm'' empty_fs)) ''a/b/c.ppm''
   \<and> save_ppm small_frame ''out/img.ppm'' (projr (save_ppm small_frame ''out/img.ppm'' empty_fs))
     = save_ppm small_frame ''out/img.ppm'' empty_fs"
proof -
  have e1: "save_ppm small_frame ''out/img.ppm'' empty_fs =
     Inr \<lparr>dirs = dirs empty_fs \<union> set (parents (dirname ''out/img.ppm'')),
          files = (files empty_fs)(''out/img.ppm'' \<mapsto>
            ppm_text (width small_frame) (height small_frame) (pixels small_frame))\<rparr>"
    by (rule save_ppm_ok)
      (simp_all add: small_frame_def empty_fs_def dirname_def split_path_def rstrip_sep_def
        sep_def Let_def)
  have e2: "save_ppm small_frame ''a/b/c.ppm'' empty_fs =
     Inr \<lparr>dirs = dirs empty_fs \<union> set (parents (dirname ''a/b/c.ppm'')),
          files = (files empty_fs)(''a/b/c.ppm'' \<mapsto>
            ppm_text (width small_frame) (height small_frame) (pixels small_frame))\<rparr>"
    by (rule save_ppm_ok)
      (simp_all add: small_frame_def empty_fs_def dirname_def split_path_def rstrip_sep_def
        sep_def Let_def)
  show ?thesis
    using save_ppm_idempotent [OF disjI1 [OF e1] disjI1 [OF e2]] by (simp add: e1 e2)
qed





section \<open>Capture sessions: properties\<close>

lemma sample_pixel_dims:
  "width (sample_pixel fc smp) = width fc \<and> height (sample_pixel fc smp) = height fc"
  by (simp add: sample_pixel_eq)

lemma capture_loop_dims:
  "width (snd (capture_loop n s t fc)) = width fc
   \<and> height (snd (capture_loop n s t fc)) = height fc"
  by (induction n arbitrary: t fc) (simp_all add: Let_def sample_pixel_dims)

lemma accumulate_dims:
  "width (snd (accumulate s t fc)) = width fc
   \<and> height (snd (accumulate s t fc)) = height fc"
proof -
  obtain t1 tm where "wait_for_frame_sync s (t + 100) = (t1, tm)" by fastforce
  then have "accumulate s t fc = capture_loop 500000 s t1 fc"
    by (simp add: accumulate_def)
  then show ?thesis by (simp add: capture_loop_dims)
qed

lemma capture_frame_snd:
  "snd (capture_frame s t fc) =
     (snd (accumulate s t fc))\<lparr>pixels := take (640 * 480) (pad_black (pixels (snd (accumulate s t fc))))\<rparr>"
  by (simp add: capture_frame_def split: prod.splits)

lemma capture_frame_dims:
  "width (snd (capture_frame s t fc)) = width fc
   \<and> height (snd (capture_frame s t fc)) = height fc"
  by (simp add: capture_frame_snd accumulate_dims)

lemma accumulate_stalled:
  assumes "\<forall>t. vsync (s t) = vsync (s 0)"
  shows "accumulate s t fc = capture_loop 500000 s (t + 100 + 100000) fc"
  using wait_for_frame_sync_stalled [OF assms, of "t + 100"]
  by (simp only: accumulate_def Let_def split: prod.splits) simp

lemma capture_frame_pixels:
  "pixels (snd (capture_frame s t fc)) =
     take (640 * 480) (pad_black (pixels (snd (accumulate s t fc))))"
  by (simp add: capture_frame_def split: prod.splits)

lemma capture_loop_never_active:
  assumes "\<forall>t. \<not> active (s t)" "length (pixels fc) < 640 * 480"
  shows "snd (capture_loop n s t fc) = fc"
proof -
  have "filter active (map s [Suc t..<Suc t + n]) = []"
    using assms(1) by (simp add: filter_empty_conv del: upt_Suc)
  then show ?thesis
    using capture_loop_pixels [OF assms(2), of n s t] by (simp del: upt_Suc)
qed

lemma capture_frame_vsync_low:
  assumes "\<forall>t. vsync (s t) = 0"
  shows "pixels (snd (capture_frame s t (init w h))) = replicate 307200 (0, 0, 0)"
proof -
  have na: "\<forall>t. \<not> active (s t)" using assms by (simp add: active_def)
  have "snd (accumulate s t (init w h)) = init w h"
    using capture_loop_never_active [OF na, of "init w h"] accumulate_stalled [of s t "init w h"] assms
    by (simp add: init_def)
  then show ?thesis
    by (simp add: capture_frame_pixels pad_black_eq init_def)
qed

lemma output_path:
  "dirname ''output/test_pattern.ppm'' = ''output'' \<and> parents ''output'' = [''output'']
   \<and> last ''output/test_pattern.ppm'' \<noteq> sep"
  by (simp add: dirname_def split_path_def rstrip_sep_def sep_def parents_def Let_def)

lemma capture_test_pattern_writes:
  assumes "files fs ''output'' = None" "''output/test_pattern.ppm'' \<notin> dirs fs"
  shows "capture_test_pattern s fs =
     Inr \<lparr>dirs = insert ''output'' (dirs fs),
          files = (files fs)(''output/test_pattern.ppm'' \<mapsto>
             ppm_text 640 480 (pixels (snd (capture_frame s 110 (init 640 480)))))\<rparr>"
proof -
  let ?fc = "snd (capture_frame s 110 (init 640 480))"
  have w: "width ?fc = 640" "height ?fc = 480"
    by (simp_all add: capture_frame_dims init_def)
  have "save_ppm ?fc ''output/test_pattern.ppm'' fs =
     Inr \<lparr>dirs = dirs fs \<union> set (parents (dirname ''output/test_pattern.ppm'')),
          files = (files fs)(''output/test_pattern.ppm'' \<mapsto> ppm_text (width ?fc) (height ?fc) (pixels ?fc))\<rparr>"
    using assms by (intro save_ppm_ok) (simp_all add: w output_path sep_def)
  then show ?thesis
    by (simp add: capture_test_pattern_def Let_def case_prod_beta w output_path)
qed

lemma stalled_session:
  assumes "\<forall>t. vsync (s t) = vsync (s 0)" "files fs ''output'' = None"
    "''output/test_pattern.ppm'' \<notin> dirs fs"
  shows "length (pixels (snd (capture_frame s 110 (init 640 480)))) = 307200
   \<and> capture_test_pattern s fs =
     Inr \<lparr>dirs = insert ''output'' (dirs fs),
          files = (files fs)(''output/test_pattern.ppm'' \<mapsto>
             ppm_text 640 480 (pixels (snd (capture_frame s 110 (init 640 480)))))\<rparr>
   \<and> (vsync (s 0) = 0 \<longrightarrow>
        pixels (snd (capture_frame s 110 (init 640 480))) = replicate 307200 (0, 0, 0))"
proof -
  have "length (pixels (snd (capture_frame s 110 (init 640 480)))) = 307200"
    by (auto simp add: capture_frame_def pad_black_eq split: prod.splits)
  moreover have "vsync (s 0) = 0 \<longrightarrow>
        pixels (snd (capture_frame s 110 (init 640 480))) = replicate 307200 (0, 0, 0)"
    using assms(1) capture_frame_vsync_low [of s 110 640 480] by metis
  ultimately show ?thesis
    using capture_test_pattern_writes [OF assms(2,3)] by blast
qed


lemma all_high_facts:
  "active all_high" "sampled_pixel all_high = (255, 255, 255)" "vsync all_high = 1"
  by (simp_all add: active_def sampled_pixel_def expand_spec_3 expand_spec_2 hsync_def vsync_def
      red_def green_def blue_def all_high_def)

lemma all_low_facts: "\<not> active all_low" "vsync all_low = 0"
  by (simp_all add: active_def hsync_def vsync_def all_low_def)

lemma window_active_samples:
  "a \<le> lo \<Longrightarrow>
   filter active (map (window_stream a b) [lo..<lo + n]) = replicate (min (b - lo) n) all_high"
proof (induction n)
  case 0
  then show ?case by simp
next
  case (Suc n)
  show ?case
  proof (cases "lo + n < b")
    case True
    then have "min (b - lo) (Suc n) = Suc n" "min (b - lo) n = n" by simp_all
    with True Suc show ?thesis
      by (simp add: window_stream_def all_high_facts replicate_append_same)
  next
    case False
    then have "min (b - lo) (Suc n) = min (b - lo) n" by simp
    with False Suc show ?thesis
      by (simp add: window_stream_def all_low_facts)
  qed
qed

lemma capture_loop_window:
  assumes "a \<le> Suc t" "length (pixels fc) < 640 * 480"
  shows "snd (capture_loop n (window_stream a b) t fc) =
     fc\<lparr>pixels := pixels fc @
        replicate (min (640 * 480 - length (pixels fc)) (min (b - Suc t) n)) (255, 255, 255)\<rparr>"
  using capture_loop_pixels [OF assms(2), of n "window_stream a b" t]
    window_active_samples [OF assms(1), of b n]
  by (simp add: all_high_facts min.commute del: upt_Suc)

lemma wait_for_frame_sync_window:
  assumes "t < a" "a < b" "a \<le> t + 100000"
  shows "wait_for_frame_sync (window_stream a b) t = (a, a - t)"
proof -
  have "vsync (window_stream a b t) \<noteq> 1"
    using assms(1) by (simp add: window_stream_def all_low_facts)
  then have 1: "wait_while 1 (window_stream a b) t 0 = (t, 0)"
    by (intro wait_while_skip) simp
  have "wait_while 0 (window_stream a b) t 0 = (t + (a - t), 0 + (a - t))"
  proof (rule wait_while_run)
    show "\<forall>i<a - t. vsync (window_stream a b (t + i)) = 0"
      by (auto simp add: window_stream_def all_low_facts)
    show "0 + (a - t) \<le> 100000" using assms(3) by simp
    show "vsync (window_stream a b (t + (a - t))) \<noteq> 0 \<or> 0 + (a - t) = 100000"
      using assms(1,2) by (simp add: window_stream_def all_high_facts)
  qed
  then have 2: "wait_while 0 (window_stream a b) t 0 = (a, a - t)"
    using assms(1) by simp
  show ?thesis by (simp add: wait_for_frame_sync_def 1 2)
qed

lemma accumulate_window:
  assumes "t + 100 < a" "a < b" "a \<le> t + 100 + 100000" "length (pixels fc) < 640 * 480"
  shows "snd (accumulate (window_stream a b) t fc) =
     fc\<lparr>pixels := pixels fc @
        replicate (min (640 * 480 - length (pixels fc)) (min (b - Suc a) 500000)) (255, 255, 255)\<rparr>"
proof -
  have "accumulate (window_stream a b) t fc = capture_loop 500000 (window_stream a b) a fc"
    using wait_for_frame_sync_window [OF assms(1,2,3)] by (simp add: accumulate_def)
  then show ?thesis
    using capture_loop_window [of a a fc 500000 b] assms(4) by simp
qed

lemma capture_loop_stalled_high:
  assumes "length (pixels fc) < 640 * 480"
  shows "snd (capture_loop n (stalled_stream all_high) t fc) =
     fc\<lparr>pixels := pixels fc @
        replicate (min (640 * 480 - length (pixels fc)) n) (255, 255, 255)\<rparr>"
proof -
  have "map (stalled_stream all_high) [Suc t..<Suc t + n] = replicate n all_high"
    by (simp add: stalled_stream_def [abs_def] map_replicate_const del: upt_Suc)
  then show ?thesis
    using capture_loop_pixels [OF assms, of n "stalled_stream all_high" t]
    by (simp add: all_high_facts min.commute del: upt_Suc)
qed

lemma capture_frame_stalled_high:
  "pixels (snd (capture_frame (stalled_stream all_high) t (init w h))) =
     replicate 307200 (255, 255, 255)"
proof -
  have "\<forall>u. vsync (stalled_stream all_high u) = vsync (stalled_stream all_high 0)"
    by (simp add: stalled_stream_def)
  then have "accumulate (stalled_stream all_high) t (init w h)
      = capture_loop 500000 (stalled_stream all_high) (t + 100 + 100000) (init w h)"
    by (rule accumulate_stalled)
  then have "pixels (snd (accumulate (stalled_stream all_high) t (init w h)))
      = replicate 307200 (255, 255, 255)"
    using capture_loop_stalled_high [of "init w h" 500000 "t + 100 + 100000"]
    by (simp add: init_def)
  then show ?thesis
    by (simp add: capture_frame_pixels pad_black_eq)
qed


text \<open>
  C5. If the accumulation loop of \<open>capture_frame\<close> ends with \<open>k < 640 * 480\<close> pixels,
  the final pixel list is those \<open>k\<close> pixels in collection order followed by
  \<open>640 * 480 - k\<close> black pixels. The witness is a stream that delivers exactly half of
  \<open>640 * 480\<close> active samples: the first half of the frame is the sampled pixels, the
  second half is black.
\<close>

theorem short_capture_padded_black:
  "length (pixels (snd (accumulate s t fc))) < 640 * 480 \<Longrightarrow>
   pixels (snd (capture_frame s t fc)) =
     pixels (snd (accumulate s t fc))
       @ replicate (640 * 480 - length (pixels (snd (accumulate s t fc)))) (0, 0, 0)"
  by (simp add: capture_frame_pixels pad_black_eq)


theorem short_capture_padded_black_witness:
  "length (pixels (snd (accumulate (window_stream 105 153706) 0 (init 640 480)))) < 640 * 480
   \<and> pixels (snd (capture_frame (window_stream 105 153706) 0 (init 640 480))) =
       replicate 153600 (255, 255, 255) @ replicate 153600 (0, 0, 0)"
proof -
  have acc: "pixels (snd (accumulate (window_stream 105 153706) 0 (init 640 480)))
      = replicate 153600 (255, 255, 255)"
    using accumulate_window [of 0 105 153706 "init 640 480"] by (simp add: init_def)
  show ?thesis
    using short_capture_padded_black [of "window_stream 105 153706" 0 "init 640 480"] by (simp add: acc)
qed


text \<open>
  C3, as amended. On a tick stream whose vsync never changes, the synchronizer gives up
  after its tick budget and the capture goes on: \<open>capture_frame\<close> returns a frame of
  exactly 307200 pixels (all black when vsync is stuck at 0), and \<open>capture_test_pattern\<close>
  writes it to \<open>output/test_pattern.ppm\<close>, provided \<open>output\<close> is no regular file and the
  target is no directory. No error result is produced.
\<close>

theorem stalled_capture_writes_frame:
  assumes "\<forall>t. vsync (s t) = vsync (s 0)" "files fs ''output'' = None"
    "''output/test_pattern.ppm'' \<notin> dirs fs"
  shows "length (pixels (snd (capture_frame s 110 (init 640 480)))) = 307200
   \<and> capture_test_pattern s fs =
     Inr \<lparr>dirs = insert ''output'' (dirs fs),
          files = (files fs)(''output/test_pattern.ppm'' \<mapsto>
             ppm_text 640 480 (pixels (snd (capture_frame s 110 (init 640 480)))))\<rparr>
   \<and> (vsync (s 0) = 0 \<longrightarrow>
        pixels (snd (capture_frame s 110 (init 640 480))) = replicate 307200 (0, 0, 0))"
  using assms by (rule stalled_session)

theorem stalled_capture_writes_frame_witness:
  "capture_test_pattern (stalled_stream all_high) empty_fs =
     Inr \<lparr>dirs = {''output''},
          files = [''output/test_pattern.ppm'' \<mapsto>
             ppm_text 640 480 (replicate 307200 (255, 255, 255))]\<rparr>"
  using stalled_capture_writes_frame [of "stalled_stream all_high" empty_fs]
  by (simp add: capture_frame_stalled_high empty_fs_def stalled_stream_def)

text \<open>
  C3 as stated fails on the stream whose lines stay low for ever: the session returns
  normally and the raster file holds 307200 black pixels.
\<close>

theorem stalled_capture_no_timeout_error:
  "capture_test_pattern (stalled_stream all_low) empty_fs =
     Inr \<lparr>dirs = {''output''},
          files = [''output/test_pattern.ppm'' \<mapsto> ppm_text 640 480 (replicate 307200 (0, 0, 0))]\<rparr>"
proof -
  have v: "\<forall>t. vsync (stalled_stream all_low t) = 0"
    by (simp add: stalled_stream_def vsync_def all_low_def)
  show ?thesis
    using capture_test_pattern_writes [of empty_fs "stalled_stream all_low"]
      capture_frame_vsync_low [OF v, of 110 640 480]
    by (simp add: empty_fs_def)
qed

end
